theory Spec2Isabelle
  imports Main "HOL-Library.Word" "HOL-Library.List_Lexorder" "HOL-Library.Char_ord"
    "HOL-Library.Product_Lexorder"
begin

section \<open>Ordered schema properties (properties.go)\<close>

text \<open>
  The file properties.go keeps the properties of an object schema in two forms, a Go map
  \<open>Origin\<close> and an insertion-ordered map \<open>omap\<close>, and renders them as a JSON object whose
  members follow either the insertion order or, without \<open>omap\<close>, a sort by the
  \<open>x-order\<close> extension. Go strings are byte strings, compared bytewise with \<open><\<close>;
  here they are \<open>string\<close> with the lexicographic order on lists of characters.
\<close>

subsection \<open>Values, errors and the sub-schema\<close>

text \<open>
  A Go value held behind \<open>interface{}\<close>, as far as \<open>reflect\<close> tells the cases apart in
  \<open>Less\<close>: a \<open>string\<close>, an \<open>int\<close> (64 bits), or a value of any other type, kept with the
  name of its type (\<open>bool\<close>, \<open>float64\<close>, ...).
\<close>

datatype go_value = VString string | VInt "64 word" | VOther string

text \<open>
  A panic of the Go runtime or of \<open>reflect\<close>, the error of a sub-schema's encoder, and the
  \<open>json.MarshalerError\<close> in which \<open>json.Marshal\<close> wraps what a \<open>MarshalJSON\<close> method
  returned.
\<close>

datatype error = Panic string | EncodeError string | MarshalerError error

text \<open>
  Modelled from the spec: the type \<open>Schema\<close> and its \<open>Extensions\<close> are declared outside
  properties.go. The spec calls the sub-schema an opaque value that exposes an extension
  map from which an ordering key may be read; the rest of its content is one field here.
\<close>

record Schema =
  Extensions :: "string \<rightharpoonup> go_value"
  Props :: string

text \<open>The zero value \<open>Schema{}\<close>, which indexing a Go map yields for a missing key.\<close>

definition zero_Schema :: Schema where
  "zero_Schema = \<lparr>Extensions = Map.empty, Props = ''''\<rparr>"

text \<open>
  Modelled from the spec: \<open>Extensions.GetString\<close> is declared outside properties.go. The
  spec describes the lookup as returning an optional ordering key value, of arbitrary
  type, and whether it was present: \<open>Some v\<close> stands for \<open>(v, true)\<close> and \<open>None\<close> for
  \<open>(_, false)\<close>.
\<close>

definition GetString :: "(string \<rightharpoonup> go_value) \<Rightarrow> string \<Rightarrow> go_value option" where
  "GetString ext key = ext key"

text \<open>
  \<open>reflect.Value.Int\<close> returns the value of a signed integer and panics on every other
  kind; \<open>reflect.Value.String\<close> returns a string's bytes and, on every other kind, the text
  \<open><T Value>\<close> with the type's name \<open>T\<close>: it never panics.
\<close>

definition reflect_Int :: "go_value \<Rightarrow> error + 64 word" where
  "reflect_Int v =
     (case v of
        VInt n \<Rightarrow> Inr n
      | _ \<Rightarrow> Inl (Panic ''reflect: call of reflect.Value.Int on non-int Value''))"

definition reflect_String :: "go_value \<Rightarrow> string" where
  "reflect_String v =
     (case v of
        VString s \<Rightarrow> s
      | VInt n \<Rightarrow> ''<int Value>''
      | VOther tn \<Rightarrow> ''<'' @ tn @ '' Value>'')"

subsection \<open>OrderSchemaItems\<close>

record OrderSchemaItem =
  Name :: string
  Schema :: Schema

type_synonym OrderSchemaItems = "OrderSchemaItem list"

definition OrderSchemaItems_Len :: "OrderSchemaItems \<Rightarrow> nat" where
  "OrderSchemaItems_Len items = length items"

text \<open>Indexing a slice out of range panics; \<open>Swap\<close> exchanges two elements in place.\<close>

definition Swap :: "OrderSchemaItems \<Rightarrow> nat \<Rightarrow> nat \<Rightarrow> error + OrderSchemaItems" where
  "Swap items i j =
     (if i < length items \<and> j < length items
      then Inr (items[i := items ! j, j := items ! i])
      else Inl (Panic ''index out of range''))"

text \<open>
  The two attempts of \<open>Less\<close> that may panic. The operands of \<open><\<close> are evaluated from left
  to right, so the first panic of the two \<open>Int\<close> calls is the one raised.
\<close>

definition less_Int :: "go_value \<Rightarrow> go_value \<Rightarrow> error + bool" where
  "less_Int ii ij =
     (case reflect_Int ii of
        Inl e \<Rightarrow> Inl e
      | Inr x \<Rightarrow> (case reflect_Int ij of
                   Inl e \<Rightarrow> Inl e
                 | Inr y \<Rightarrow> Inr (sint x < sint y)))"

definition less_String :: "go_value \<Rightarrow> go_value \<Rightarrow> error + bool" where
  "less_String ii ij = Inr (reflect_String ii < reflect_String ij)"

text \<open>
  \<open>Less\<close>: the outer deferred function recovers a panic of the integer comparison and
  compares the strings; the inner one recovers a panic of that and compares the names.
\<close>

definition Less :: "OrderSchemaItems \<Rightarrow> nat \<Rightarrow> nat \<Rightarrow> error + bool" where
  "Less items i j =
     (if \<not> (i < length items \<and> j < length items) then Inl (Panic ''index out of range'')
      else
        (case GetString (Extensions (Schema (items ! i))) ''x-order'' of
           Some ii \<Rightarrow>
             (case GetString (Extensions (Schema (items ! j))) ''x-order'' of
                Some ij \<Rightarrow>
                  (case less_Int ii ij of
                     Inr ret \<Rightarrow> Inr ret
                   | Inl _ \<Rightarrow>
                       (case less_String ii ij of
                          Inr ret \<Rightarrow> Inr ret
                        | Inl _ \<Rightarrow> Inr (Name (items ! i) < Name (items ! j))))
              | None \<Rightarrow> Inr True)
         | None \<Rightarrow>
             (case GetString (Extensions (Schema (items ! j))) ''x-order'' of
                Some ij \<Rightarrow> Inr False
              | None \<Rightarrow> Inr (Name (items ! i) < Name (items ! j)))))"

text \<open>
  \<open>OrderSchemaItems.MarshalJSON\<close>. The encoder of a sub-schema, \<open>json.Marshal\<close> on
  \<open>&items[i].Schema\<close>, is outside properties.go and is the parameter \<open>enc\<close>. The loop
  carries the index and the buffer; an encoder's error returns at once, without the
  buffer.
\<close>

abbreviation dquote :: char where
  "dquote \<equiv> CHR 0x22"

fun MarshalJSON_loop ::
  "(Schema \<Rightarrow> error + string) \<Rightarrow> nat \<Rightarrow> OrderSchemaItems \<Rightarrow> string \<Rightarrow> error + string" where
  "MarshalJSON_loop enc i [] buf = Inr buf"
| "MarshalJSON_loop enc i (item # rest) buf =
     (let buf1 = (if i > 0 then buf @ '','' else buf);
          buf2 = buf1 @ [dquote] @ Name item @ [dquote] @ '':''
      in case enc (Schema item) of
           Inl err \<Rightarrow> Inl err
         | Inr bs \<Rightarrow> MarshalJSON_loop enc (Suc i) rest (buf2 @ bs))"

definition OrderSchemaItems_MarshalJSON ::
  "(Schema \<Rightarrow> error + string) \<Rightarrow> OrderSchemaItems \<Rightarrow> error + string" where
  "OrderSchemaItems_MarshalJSON enc items =
     (case MarshalJSON_loop enc 0 items ''{'' of
        Inl err \<Rightarrow> Inl err
      | Inr buf \<Rightarrow> Inr (buf @ ''}''))"

subsection \<open>The standard library: sort.Sort and json.Marshal\<close>

text \<open>
  \<open>sort.Sort\<close> sorts through \<open>Len\<close>, \<open>Less\<close> and \<open>Swap\<close>. On at most 12 elements (Go 1.19
  and later; on at most 6 before) it is the library's \<open>insertionSort(data, 0, n)\<close>,
  which this is. Longer slices take the library's quicksort, which is not modelled: it
  returns a permutation too, the same one wherever \<open>Less\<close> is a strict linear order on
  the elements, and possibly another one where elements tie. The examples below that run
  the sort have two or three elements.
\<close>

fun insertionSort_inner :: "OrderSchemaItems \<Rightarrow> nat \<Rightarrow> nat \<Rightarrow> error + OrderSchemaItems" where
  "insertionSort_inner data a 0 = Inr data"
| "insertionSort_inner data a (Suc j) =
     (if Suc j > a then
        (case Less data (Suc j) j of
           Inl e \<Rightarrow> Inl e
         | Inr lt \<Rightarrow>
             if lt then
               (case Swap data (Suc j) j of
                  Inl e \<Rightarrow> Inl e
                | Inr data' \<Rightarrow> insertionSort_inner data' a j)
             else Inr data)
      else Inr data)"

function insertionSort_outer ::
  "OrderSchemaItems \<Rightarrow> nat \<Rightarrow> nat \<Rightarrow> nat \<Rightarrow> error + OrderSchemaItems" where
  "insertionSort_outer data a i b =
     (if i < b then
        (case insertionSort_inner data a i of
           Inl e \<Rightarrow> Inl e
         | Inr data' \<Rightarrow> insertionSort_outer data' a (Suc i) b)
      else Inr data)"
  by pat_completeness auto
termination
  by (relation "measure (\<lambda>(data, a, i, b). b - i)") auto

declare insertionSort_outer.simps [simp del]

definition insertionSort :: "OrderSchemaItems \<Rightarrow> nat \<Rightarrow> nat \<Rightarrow> error + OrderSchemaItems" where
  "insertionSort data a b = insertionSort_outer data a (a + 1) b"

definition sort_Sort :: "OrderSchemaItems \<Rightarrow> error + OrderSchemaItems" where
  "sort_Sort data = insertionSort data 0 (OrderSchemaItems_Len data)"

text \<open>
  \<open>json.Marshal\<close> on a value with a \<open>MarshalJSON\<close> method calls the method, wraps its
  error, and passes the bytes it returned through the library's \<open>compact\<close>, which checks
  that they are JSON and rewrites them (it drops white space and escapes \<open><\<close>, \<open>>\<close> and
  \<open>&\<close>); an error of \<open>compact\<close> is wrapped the same way. \<open>compact\<close> is a parameter.
\<close>

definition json_Marshal ::
  "(Schema \<Rightarrow> error + string) \<Rightarrow> (string \<Rightarrow> error + string) \<Rightarrow> OrderSchemaItems
     \<Rightarrow> error + string" where
  "json_Marshal enc compact items =
     (case OrderSchemaItems_MarshalJSON enc items of
        Inl err \<Rightarrow> Inl (MarshalerError err)
      | Inr b \<Rightarrow>
          (case compact b of
             Inl err \<Rightarrow> Inl (MarshalerError err)
           | Inr out \<Rightarrow> Inr out))"

subsection \<open>SchemaProperties\<close>

text \<open>
  \<open>orderedmap.OrderedMap\<close> of github.com/iancoleman/orderedmap: the keys in the order of
  their first \<open>Set\<close>, and the values. \<open>Set\<close> appends a key that is new and leaves the
  position of one that exists.
\<close>

record OrderedMap =
  keys :: "string list"
  vals :: "string \<rightharpoonup> Schema"

definition orderedmap_New :: OrderedMap where
  "orderedmap_New = \<lparr>keys = [], vals = Map.empty\<rparr>"

definition orderedmap_Set :: "string \<Rightarrow> Schema \<Rightarrow> OrderedMap \<Rightarrow> OrderedMap" where
  "orderedmap_Set key v om =
     (let ks = (if vals om key = None then keys om @ [key] else keys om)
      in \<lparr>keys = ks, vals = (vals om)(key \<mapsto> v)\<rparr>)"

definition orderedmap_Keys :: "OrderedMap \<Rightarrow> string list" where
  "orderedmap_Keys om = keys om"

text \<open>
  The container. \<open>None\<close> is the nil map, respectively the nil pointer. The methods have
  value receivers; what they change is the map and the ordered map the receiver refers
  to, so each method takes the container and returns it as the call leaves it.
\<close>

record SchemaProperties =
  Origin :: "(string \<rightharpoonup> Schema) option"
  omap :: "OrderedMap option"

definition NewSchemaProperties :: SchemaProperties where
  "NewSchemaProperties = \<lparr>Origin = Some Map.empty, omap = Some orderedmap_New\<rparr>"

text \<open>
  \<open>Set\<close>: an assignment to an entry of a nil map panics, and so does the call of
  \<open>omap.Set\<close> on a nil pointer, after \<open>Origin\<close> has been written. The first component is
  the panic, or \<open>None\<close> when the call returns.
\<close>

definition SchemaProperties_Set ::
  "string \<Rightarrow> Schema \<Rightarrow> SchemaProperties \<Rightarrow> error option \<times> SchemaProperties" where
  "SchemaProperties_Set k v s =
     (case Origin s of
        None \<Rightarrow> (Some (Panic ''assignment to entry in nil map''), s)
      | Some m \<Rightarrow>
          (let s1 = s\<lparr>Origin := Some (m(k \<mapsto> v))\<rparr>
           in case omap s1 of
                None \<Rightarrow> (Some (Panic ''nil pointer dereference''), s1)
              | Some om \<Rightarrow> (None, s1\<lparr>omap := Some (orderedmap_Set k v om)\<rparr>)))"

definition SchemaProperties_Len :: "SchemaProperties \<Rightarrow> nat \<times> SchemaProperties" where
  "SchemaProperties_Len s =
     (case Origin s of
        None \<Rightarrow> (0, s)
      | Some m \<Rightarrow> (card (dom m), s))"

text \<open>Reading a Go map: the zero value for a missing key, and for every key of a nil map.\<close>

definition map_index :: "(string \<rightharpoonup> Schema) option \<Rightarrow> string \<Rightarrow> Schema" where
  "map_index mo key =
     (case mo of
        None \<Rightarrow> zero_Schema
      | Some m \<Rightarrow> (case m key of None \<Rightarrow> zero_Schema | Some v \<Rightarrow> v))"

text \<open>
  \<open>for k, v := range properties.Origin\<close>: the Go runtime visits every entry once, in an
  order it chooses anew at each loop. The order is the parameter \<open>ks\<close>, a list of the keys
  of the map; \<open>iteration_order\<close> says that it is one the runtime can choose. A nil map has
  no entries.
\<close>

definition iteration_order :: "(string \<rightharpoonup> Schema) option \<Rightarrow> string list \<Rightarrow> bool" where
  "iteration_order mo ks =
     (case mo of
        None \<Rightarrow> ks = []
      | Some m \<Rightarrow> distinct ks \<and> set ks = dom m)"

definition range_Origin :: "(string \<rightharpoonup> Schema) option \<Rightarrow> string list \<Rightarrow> OrderSchemaItems" where
  "range_Origin mo ks =
     (case mo of
        None \<Rightarrow> []
      | Some m \<Rightarrow>
          List.map_filter
            (\<lambda>k. case m k of None \<Rightarrow> None | Some v \<Rightarrow> Some \<lparr>Name = k, Schema = v\<rparr>) ks)"

definition ToOrderedSchemaItems ::
  "string list \<Rightarrow> SchemaProperties \<Rightarrow> (error + OrderSchemaItems) \<times> SchemaProperties" where
  "ToOrderedSchemaItems ks properties =
     (case omap properties of
        Some om \<Rightarrow>
          (Inr (map (\<lambda>key. \<lparr>Name = key, Schema = map_index (Origin properties) key\<rparr>)
                  (orderedmap_Keys om)),
           properties)
      | None \<Rightarrow> (sort_Sort (range_Origin (Origin properties) ks), properties))"

definition SchemaProperties_MarshalJSON ::
  "(Schema \<Rightarrow> error + string) \<Rightarrow> (string \<Rightarrow> error + string) \<Rightarrow> string list
     \<Rightarrow> SchemaProperties \<Rightarrow> (error + string) \<times> SchemaProperties" where
  "SchemaProperties_MarshalJSON enc compact ks properties =
     (if Origin properties = None then (Inr ''null'', properties)
      else
        (case ToOrderedSchemaItems ks properties of
           (Inl e, properties') \<Rightarrow> (Inl e, properties')
         | (Inr items, properties') \<Rightarrow> (json_Marshal enc compact items, properties')))"

subsection \<open>Containers built by the constructor\<close>

text \<open>
  \<open>built kvs\<close> is the container after \<open>NewSchemaProperties()\<close> and one \<open>Set\<close> for each
  pair of \<open>kvs\<close>, from left to right.
\<close>

definition set_all :: "(string \<times> Schema) list \<Rightarrow> SchemaProperties \<Rightarrow> SchemaProperties" where
  "set_all kvs s = foldl (\<lambda>s kv. snd (SchemaProperties_Set (fst kv) (snd kv) s)) s kvs"

definition built :: "(string \<times> Schema) list \<Rightarrow> SchemaProperties" where
  "built kvs = set_all kvs NewSchemaProperties"

text \<open>
  Both forms are present and hold the same names, each once in the ordered map's keys.
\<close>

definition consistent :: "SchemaProperties \<Rightarrow> bool" where
  "consistent s =
     (case Origin s of
        None \<Rightarrow> False
      | Some m \<Rightarrow>
          (case omap s of
             None \<Rightarrow> False
           | Some om \<Rightarrow> distinct (keys om) \<and> set (keys om) = dom m \<and> dom (vals om) = dom m))"

text \<open>
  A sub-schema for the examples: its content \<open>p\<close> and, when given, its \<open>x-order\<close>
  extension.
\<close>

definition sch :: "string \<Rightarrow> go_value option \<Rightarrow> Schema" where
  "sch p xo =
     \<lparr>Extensions = (case xo of None \<Rightarrow> Map.empty | Some v \<Rightarrow> [''x-order'' \<mapsto> v]), Props = p\<rparr>"

text \<open>
  A sub-schema encoder for the examples: the content of the schema is its JSON text, and
  a schema without content does not encode.
\<close>

definition enc_Props :: "Schema \<Rightarrow> error + string" where
  "enc_Props s = (if Props s = [] then Inl (EncodeError ''unsupported value'') else Inr (Props s))"

subsection \<open>The sort, as a function\<close>

text \<open>
  For the proofs: \<open>less_item a b\<close> is what \<open>Less\<close> returns for \<open>a\<close> at one index and \<open>b\<close>
  at the other; \<open>insr\<close> is the inner loop of \<open>insertionSort\<close> on the sorted prefix, held in
  reverse, and \<open>isr\<close> the outer loop. \<open>item_key\<close> is a key whose order \<open>Less\<close> follows on
  pairs that do not tie.
\<close>

definition less_item :: "OrderSchemaItem \<Rightarrow> OrderSchemaItem \<Rightarrow> bool" where
  "less_item a b = (Less [a, b] 0 1 = Inr True)"

fun insr :: "OrderSchemaItem \<Rightarrow> OrderSchemaItems \<Rightarrow> OrderSchemaItems" where
  "insr x [] = [x]"
| "insr x (y # ys) = (if less_item x y then y # insr x ys else x # y # ys)"

fun isr :: "OrderSchemaItems \<Rightarrow> OrderSchemaItems \<Rightarrow> OrderSchemaItems" where
  "isr acc [] = acc"
| "isr acc (x # xs) = isr (insr x acc) xs"



subsection \<open>Decoding the rendered object\<close>

text \<open>
  Modelled from the spec: the round trip decodes the text "back into a mapping from name
  to decoded sub-schema"; no decoder is part of properties.go. \<open>decode_object\<close> reads a
  JSON object without white space the way \<open>encoding/json\<close> reads one into a Go map: a
  member name is a JSON string, with its escapes resolved and no raw control character,
  and a later member replaces an earlier one of the same name. The decoder of a
  sub-schema is the parameter \<open>dec\<close>: it reads one value from the front of the text and
  returns it with the rest. The escape with four hex digits and white space are outside this model: the
  result on them is \<open>None\<close>. The fuel of \<open>decode_members\<close> is the length of the text, and
  every member uses up one.
\<close>

abbreviation backslash :: char where
  "backslash \<equiv> CHR 0x5C"

definition unescape :: "char \<Rightarrow> char option" where
  "unescape c =
     (if c = dquote then Some dquote
      else if c = backslash then Some backslash
      else if c = CHR ''/'' then Some (CHR ''/'')
      else if c = CHR ''b'' then Some (CHR 0x08)
      else if c = CHR ''f'' then Some (CHR 0x0C)
      else if c = CHR ''n'' then Some (CHR 0x0A)
      else if c = CHR ''r'' then Some (CHR 0x0D)
      else if c = CHR ''t'' then Some (CHR 0x09)
      else None)"

fun decode_string :: "string \<Rightarrow> string \<Rightarrow> (string \<times> string) option" where
  "decode_string acc [] = None"
| "decode_string acc [c] = (if c = dquote then Some (acc, []) else None)"
| "decode_string acc (c # d # cs) =
     (if c = dquote then Some (acc, d # cs)
      else if c = backslash then
        (case unescape d of
           None \<Rightarrow> None
         | Some u \<Rightarrow> decode_string (acc @ [u]) cs)
      else if (of_char c :: nat) < 0x20 then None
      else decode_string (acc @ [c]) (d # cs))"

fun decode_members ::
  "(string \<Rightarrow> (Schema \<times> string) option) \<Rightarrow> nat \<Rightarrow> (string \<rightharpoonup> Schema) \<Rightarrow> string
     \<Rightarrow> (string \<rightharpoonup> Schema) option" where
  "decode_members dec 0 m txt = None"
| "decode_members dec (Suc n) m txt =
     (case txt of
        [] \<Rightarrow> None
      | c # cs \<Rightarrow>
          if c \<noteq> dquote then None
          else
            (case decode_string [] cs of
               None \<Rightarrow> None
             | Some (name, r1) \<Rightarrow>
                 (case r1 of
                    [] \<Rightarrow> None
                  | c1 # r2 \<Rightarrow>
                      if c1 \<noteq> CHR '':'' then None
                      else
                        (case dec r2 of
                           None \<Rightarrow> None
                         | Some (v, r3) \<Rightarrow>
                             if r3 = ''}'' then Some (m(name \<mapsto> v))
                             else
                               (case r3 of
                                  [] \<Rightarrow> None
                                | c3 # r4 \<Rightarrow>
                                    if c3 = CHR '','' then decode_members dec n (m(name \<mapsto> v)) r4
                                    else None)))))"

definition decode_object ::
  "(string \<Rightarrow> (Schema \<times> string) option) \<Rightarrow> string \<Rightarrow> (string \<rightharpoonup> Schema) option" where
  "decode_object dec txt =
     (case txt of
        [] \<Rightarrow> None
      | c # cs \<Rightarrow>
          if c \<noteq> CHR ''{'' then None
          else if cs = ''}'' then Some Map.empty
          else decode_members dec (length cs) Map.empty cs)"

text \<open>
  A name made of printable ASCII characters that \<open>encoding/json\<close> writes and reads as
  they are: no quote, no backslash, and none of the three characters that \<open>compact\<close>
  rewrites.
\<close>

definition plain_name :: "string \<Rightarrow> bool" where
  "plain_name n =
     list_all (\<lambda>c. 0x20 \<le> (of_char c :: nat) \<and> (of_char c :: nat) < 0x7F
                 \<and> c \<noteq> dquote \<and> c \<noteq> backslash
                 \<and> c \<noteq> CHR ''<'' \<and> c \<noteq> CHR ''>'' \<and> c \<noteq> CHR ''&'') n"

text \<open>
  A sub-schema decoder for the examples, the counterpart of \<open>enc_Props\<close>: the value ends
  before the next comma or closing brace.
\<close>

definition dec_Props :: "string \<Rightarrow> (Schema \<times> string) option" where
  "dec_Props txt =
     (let t = takeWhile (\<lambda>c. c \<noteq> CHR '','' \<and> c \<noteq> CHR ''}'') txt
      in if t = [] then None
         else Some (\<lparr>Extensions = Map.empty, Props = t\<rparr>,
                    dropWhile (\<lambda>c. c \<noteq> CHR '','' \<and> c \<noteq> CHR ''}'') txt))"

text \<open>
  For the proofs: the text of one member and of the members of \<open>OrderSchemaItems.MarshalJSON\<close>,
  and the entry that decoding a member adds.
\<close>

definition render_member :: "(Schema \<Rightarrow> error + string) \<Rightarrow> OrderSchemaItem \<Rightarrow> string" where
  "render_member enc it =
     dquote # Name it @ dquote # CHR '':'' # (case enc (Schema it) of Inl e \<Rightarrow> [] | Inr t \<Rightarrow> t)"

fun render_members :: "(Schema \<Rightarrow> error + string) \<Rightarrow> OrderSchemaItems \<Rightarrow> string" where
  "render_members enc [] = []"
| "render_members enc [it] = render_member enc it"
| "render_members enc (it # it' # rest) = render_member enc it @ CHR '','' # render_members enc (it' # rest)"

definition put_item :: "OrderSchemaItem \<Rightarrow> (string \<rightharpoonup> Schema) \<Rightarrow> (string \<rightharpoonup> Schema)" where
  "put_item it m = m(Name it \<mapsto> Schema it)"

section \<open>Properties\<close>

subsection \<open>Built containers\<close>

lemma built_Nil: "built [] = NewSchemaProperties"
  by (simp add: built_def set_all_def)

lemma built_snoc: "built (kvs @ [(k, v)]) = snd (SchemaProperties_Set k v (built kvs))"
  by (simp add: built_def set_all_def)

lemma consistent_New: "consistent NewSchemaProperties"
  by (simp add: consistent_def NewSchemaProperties_def orderedmap_New_def)

lemma consistent_Set:
  assumes "consistent s"
  shows "consistent (snd (SchemaProperties_Set k v s))"
    and "fst (SchemaProperties_Set k v s) = None"
proof -
  from assms obtain m om where h: "Origin s = Some m" "omap s = Some om" "distinct (keys om)"
    "set (keys om) = dom m" "dom (vals om) = dom m"
    by (auto simp: consistent_def split: option.splits)
  have n: "(vals om k = None) = (k \<notin> dom m)"
    using h(5) by (auto simp: domIff)
  show "consistent (snd (SchemaProperties_Set k v s))"
    using h n by (auto simp: consistent_def SchemaProperties_Set_def orderedmap_Set_def Let_def)
  show "fst (SchemaProperties_Set k v s) = None"
    using h by (simp add: SchemaProperties_Set_def Let_def)
qed

lemma consistent_built: "consistent (built kvs)"
proof (induction kvs rule: rev_induct)
  case Nil
  show ?case by (simp add: built_Nil consistent_New)
next
  case (snoc kv kvs)
  then show ?case by (cases kv) (simp add: built_snoc consistent_Set)
qed

lemma Origin_built: "Origin (built kvs) = Some (map_of (rev kvs))"
proof (induction kvs rule: rev_induct)
  case Nil
  then show ?case by (simp add: built_Nil NewSchemaProperties_def)
next
  case (snoc kv kvs)
  obtain k v where kv: "kv = (k, v)" by (cases kv)
  show ?case
    using snoc consistent_built [of kvs]
    by (auto simp: kv built_snoc SchemaProperties_Set_def consistent_def Let_def
        split: option.splits)
qed

lemma keys_built:
  "\<exists>om. omap (built kvs) = Some om \<and> keys om = rev (remdups (rev (map fst kvs)))"
proof (induction kvs rule: rev_induct)
  case Nil
  then show ?case by (simp add: built_Nil NewSchemaProperties_def orderedmap_New_def)
next
  case (snoc kv kvs)
  obtain k v where kv: "kv = (k, v)" by (cases kv)
  from snoc obtain om where om: "omap (built kvs) = Some om"
    "keys om = rev (remdups (rev (map fst kvs)))" by blast
  have c: "consistent (built kvs)" by (rule consistent_built)
  have d: "dom (vals om) = set (keys om)"
    using c om(1) by (auto simp: consistent_def split: option.splits)
  have "(vals om k = None) = (k \<notin> fst ` set kvs)"
    using d om(2) by (auto simp: domIff)
  then show ?case
    using om c
    by (auto simp: kv built_snoc SchemaProperties_Set_def consistent_def Let_def
        orderedmap_Set_def split: option.splits)
qed

lemma ToOrdered_present:
  "omap s = Some om \<Longrightarrow>
   fst (ToOrderedSchemaItems ks s) =
     Inr (map (\<lambda>key. \<lparr>Name = key, Schema = map_index (Origin s) key\<rparr>) (keys om))"
  by (simp add: ToOrderedSchemaItems_def orderedmap_Keys_def)

lemma ToOrdered_built:
  "fst (ToOrderedSchemaItems ks (built kvs)) =
     Inr (map (\<lambda>key. \<lparr>Name = key, Schema = map_index (Some (map_of (rev kvs))) key\<rparr>)
            (rev (remdups (rev (map fst kvs)))))"
proof -
  obtain om where om: "omap (built kvs) = Some om" "keys om = rev (remdups (rev (map fst kvs)))"
    using keys_built by blast
  show ?thesis
    using ToOrdered_present [OF om(1), of ks] by (simp add: om(2) Origin_built)
qed

subsection \<open>The insertion-order path\<close>

text \<open>
  C1. With the ordered map present, \<open>ToOrderedSchemaItems\<close> returns one pair for each key
  of the ordered map, in the order of its keys, each with what \<open>Origin\<close> holds for it;
  nothing is sorted and no \<open>x-order\<close> value is read. For a container built by the
  constructor the names come in the order of their first insertion, whatever the
  schemas inserted.
\<close>

theorem ToOrderedSchemaItems_insertion_order:
  "(omap s = Some om \<longrightarrow>
      fst (ToOrderedSchemaItems ks s) =
        Inr (map (\<lambda>key. \<lparr>Name = key, Schema = map_index (Origin s) key\<rparr>) (orderedmap_Keys om)))
   \<and> (\<exists>items. fst (ToOrderedSchemaItems ks (built kvs)) = Inr items
         \<and> map Name items = rev (remdups (rev (map fst kvs))))"
  by (simp add: ToOrdered_present orderedmap_Keys_def ToOrdered_built comp_def)

theorem ToOrderedSchemaItems_insertion_order_witness:
  "omap \<lparr>Origin = Some [''b'' \<mapsto> sch ''B'' None, ''a'' \<mapsto> sch ''A'' (Some (VInt 1))],
         omap = Some \<lparr>keys = [''b'', ''a''], vals = Map.empty\<rparr>\<rparr>
     = Some \<lparr>keys = [''b'', ''a''], vals = Map.empty\<rparr>
   \<and> fst (ToOrderedSchemaItems []
        \<lparr>Origin = Some [''b'' \<mapsto> sch ''B'' None, ''a'' \<mapsto> sch ''A'' (Some (VInt 1))],
         omap = Some \<lparr>keys = [''b'', ''a''], vals = Map.empty\<rparr>\<rparr>)
     = Inr [\<lparr>Name = ''b'', Schema = sch ''B'' None\<rparr>,
            \<lparr>Name = ''a'', Schema = sch ''A'' (Some (VInt 1))\<rparr>]"
  using ToOrderedSchemaItems_insertion_order
    [of "\<lparr>Origin = Some [''b'' \<mapsto> sch ''B'' None, ''a'' \<mapsto> sch ''A'' (Some (VInt 1))],
         omap = Some \<lparr>keys = [''b'', ''a''], vals = Map.empty\<rparr>\<rparr>"
        "\<lparr>keys = [''b'', ''a''], vals = Map.empty\<rparr>" "[]" "[]"]
  by (simp add: orderedmap_Keys_def map_index_def)

text \<open>
  C5. In a container built by the constructor, \<open>Set\<close> on a name inserted before returns
  without a panic, and \<open>ToOrderedSchemaItems\<close> afterwards gives the sequence it gave
  before with one change: at the position of that name, the pair now holds the schema
  just inserted.
\<close>

theorem Set_existing_name_keeps_position:
  assumes "k \<in> fst ` set kvs"
  shows "\<exists>items i. fst (ToOrderedSchemaItems ks (built kvs)) = Inr items
           \<and> i < length items \<and> Name (items ! i) = k
           \<and> fst (SchemaProperties_Set k v (built kvs)) = None
           \<and> fst (ToOrderedSchemaItems ks' (snd (SchemaProperties_Set k v (built kvs))))
               = Inr (items[i := \<lparr>Name = k, Schema = v\<rparr>])"
proof -
  define K where "K = rev (remdups (rev (map fst kvs)))"
  define items where
    "items = map (\<lambda>key. \<lparr>Name = key, Schema = map_index (Some (map_of (rev kvs))) key\<rparr>) K"
  have dK: "distinct K" and sK: "set K = fst ` set kvs"
    by (simp_all add: K_def)
  from assms sK obtain i where i: "i < length K" "K ! i = k"
    by (metis in_set_conv_nth)
  have 1: "fst (ToOrderedSchemaItems ks (built kvs)) = Inr items"
    by (simp add: ToOrdered_built items_def K_def)
  have K': "rev (remdups (rev (map fst (kvs @ [(k, v)])))) = K"
    using assms by (simp add: K_def)
  have 2: "fst (ToOrderedSchemaItems ks' (snd (SchemaProperties_Set k v (built kvs))))
      = Inr (map (\<lambda>key. \<lparr>Name = key,
                 Schema = map_index (Some (map_of (rev (kvs @ [(k, v)])))) key\<rparr>) K)"
    using ToOrdered_built [of ks' "kvs @ [(k, v)]"] by (simp only: built_snoc K')
  have 3: "map (\<lambda>key. \<lparr>Name = key,
                 Schema = map_index (Some (map_of (rev (kvs @ [(k, v)])))) key\<rparr>) K
      = items[i := \<lparr>Name = k, Schema = v\<rparr>]"
  proof (rule nth_equalityI)
    show "length (map (\<lambda>key. \<lparr>Name = key,
                 Schema = map_index (Some (map_of (rev (kvs @ [(k, v)])))) key\<rparr>) K)
        = length (items[i := \<lparr>Name = k, Schema = v\<rparr>])"
      by (simp add: items_def)
  next
    fix j
    assume "j < length (map (\<lambda>key. \<lparr>Name = key,
                 Schema = map_index (Some (map_of (rev (kvs @ [(k, v)])))) key\<rparr>) K)"
    then have j: "j < length K" by simp
    show "map (\<lambda>key. \<lparr>Name = key,
                 Schema = map_index (Some (map_of (rev (kvs @ [(k, v)])))) key\<rparr>) K ! j
        = items[i := \<lparr>Name = k, Schema = v\<rparr>] ! j"
    proof (cases "j = i")
      case True
      then show ?thesis using i by (simp add: items_def map_index_def)
    next
      case False
      then have "K ! j \<noteq> k"
        using dK i j by (auto simp: nth_eq_iff_index_eq)
      then show ?thesis using False j by (simp add: items_def map_index_def)
    qed
  qed
  have 4: "fst (SchemaProperties_Set k v (built kvs)) = None"
    by (rule consistent_Set(2) [OF consistent_built])
  have 5: "Name (items ! i) = k" "i < length items"
    using i by (simp_all add: items_def)
  show ?thesis
    using 1 2 3 4 5 by auto
qed

theorem Set_existing_name_keeps_position_witness:
  "''a'' \<in> fst ` set [(''a'', sch ''A'' None), (''b'', sch ''B'' None)]
   \<and> fst (ToOrderedSchemaItems []
        (snd (SchemaProperties_Set ''a'' (sch ''A2'' None)
               (built [(''a'', sch ''A'' None), (''b'', sch ''B'' None)]))))
     = Inr [\<lparr>Name = ''a'', Schema = sch ''A2'' None\<rparr>, \<lparr>Name = ''b'', Schema = sch ''B'' None\<rparr>]"
proof -
  have h: "''a'' \<in> fst ` set [(''a'', sch ''A'' None), (''b'', sch ''B'' None)]" by simp
  have b: "fst (ToOrderedSchemaItems [] (built [(''a'', sch ''A'' None), (''b'', sch ''B'' None)]))
     = Inr [\<lparr>Name = ''a'', Schema = sch ''A'' None\<rparr>, \<lparr>Name = ''b'', Schema = sch ''B'' None\<rparr>]"
    by (simp add: ToOrdered_built map_index_def)
  from Set_existing_name_keeps_position [OF h, of "[]" "sch ''A2'' None" "[]"]
  obtain items i where
    r: "fst (ToOrderedSchemaItems [] (built [(''a'', sch ''A'' None), (''b'', sch ''B'' None)]))
          = Inr items"
      "i < length items" "Name (items ! i) = ''a''"
      "fst (ToOrderedSchemaItems []
          (snd (SchemaProperties_Set ''a'' (sch ''A2'' None)
                 (built [(''a'', sch ''A'' None), (''b'', sch ''B'' None)]))))
        = Inr (items[i := \<lparr>Name = ''a'', Schema = sch ''A2'' None\<rparr>])"
    by blast
  from r(1) b have it:
    "items = [\<lparr>Name = ''a'', Schema = sch ''A'' None\<rparr>, \<lparr>Name = ''b'', Schema = sch ''B'' None\<rparr>]"
    by simp
  from r(2,3) have "i = 0" by (cases i) (auto simp: it)
  then show ?thesis using h r(4) it by simp
qed

subsection \<open>The comparison and the fallback sort\<close>

lemma insertionSort_outer_step:
  "i < b \<Longrightarrow> insertionSort_outer data a i b =
     (case insertionSort_inner data a i of
        Inl e \<Rightarrow> Inl e
      | Inr data' \<Rightarrow> insertionSort_outer data' a (Suc i) b)"
  by (subst insertionSort_outer.simps) simp

lemma insertionSort_outer_stop: "\<not> i < b \<Longrightarrow> insertionSort_outer data a i b = Inr data"
  by (subst insertionSort_outer.simps) simp

lemma GetString_sch: "GetString (Extensions (sch p xo)) ''x-order'' = xo"
  by (cases xo) (simp_all add: sch_def GetString_def)

lemmas sort_eval =
  ToOrderedSchemaItems_def range_Origin_def List.map_filter_simps sort_Sort_def insertionSort_def
  OrderSchemaItems_Len_def Less_def Swap_def less_Int_def less_String_def reflect_Int_def
  reflect_String_def insertionSort_outer_step insertionSort_outer_stop GetString_sch

lemma three_orders:
  assumes "distinct ks" "set ks = {x, y, z}" "x \<noteq> y" "x \<noteq> z" "y \<noteq> z"
  shows "ks \<in> {[x, y, z], [x, z, y], [y, x, z], [y, z, x], [z, x, y], [z, y, x]}"
proof -
  have "length ks = card (set ks)" using assms(1) by (simp add: distinct_card)
  also have "\<dots> = 3" using assms by simp
  finally obtain p q r where ks: "ks = [p, q, r]"
    by (auto simp: numeral_3_eq_3 length_Suc_conv)
  have "p \<in> set ks" "q \<in> set ks" "r \<in> set ks" by (simp_all add: ks)
  then have m: "p \<in> {x, y, z}" "q \<in> {x, y, z}" "r \<in> {x, y, z}"
    unfolding assms(2) by blast+
  have d: "p \<noteq> q" "p \<noteq> r" "q \<noteq> r" using assms(1) by (simp_all add: ks)
  show ?thesis using m d unfolding ks by blast
qed

lemma Less_both_present:
  assumes "i < length items" "j < length items"
    and "GetString (Extensions (Schema (items ! i))) ''x-order'' = Some ii"
    and "GetString (Extensions (Schema (items ! j))) ''x-order'' = Some ij"
  shows "Less items i j =
     Inr (case ii of
            VInt x \<Rightarrow> (case ij of VInt y \<Rightarrow> sint x < sint y
                        | _ \<Rightarrow> reflect_String ii < reflect_String ij)
          | _ \<Rightarrow> reflect_String ii < reflect_String ij)"
  using assms
  by (simp add: Less_def less_Int_def less_String_def reflect_Int_def split: go_value.splits)

lemma Less_only_first:
  assumes "i < length items" "j < length items"
    and "GetString (Extensions (Schema (items ! i))) ''x-order'' \<noteq> None"
    and "GetString (Extensions (Schema (items ! j))) ''x-order'' = None"
  shows "Less items i j = Inr True" and "Less items j i = Inr False"
  using assms by (auto simp: Less_def split: option.splits)

lemma Less_neither:
  assumes "i < length items" "j < length items"
    and "GetString (Extensions (Schema (items ! i))) ''x-order'' = None"
    and "GetString (Extensions (Schema (items ! j))) ''x-order'' = None"
  shows "Less items i j = Inr (Name (items ! i) < Name (items ! j))"
  using assms by (simp add: Less_def)

lemma scenario_orders:
  assumes "ks \<in> {[''b'', ''a'', ''c''], [''b'', ''c'', ''a''], [''a'', ''b'', ''c''],
                 [''a'', ''c'', ''b''], [''c'', ''b'', ''a''], [''c'', ''a'', ''b'']}"
  shows "fst (ToOrderedSchemaItems ks
           \<lparr>Origin = Some [''b'' \<mapsto> sch ''B'' None, ''a'' \<mapsto> sch ''A'' (Some (VInt 2)),
                           ''c'' \<mapsto> sch ''C'' (Some (VInt 1))],
            omap = None\<rparr>)
         = Inr [\<lparr>Name = ''c'', Schema = sch ''C'' (Some (VInt 1))\<rparr>,
                \<lparr>Name = ''a'', Schema = sch ''A'' (Some (VInt 2))\<rparr>,
                \<lparr>Name = ''b'', Schema = sch ''B'' None\<rparr>]"
  using assms by (auto simp: sort_eval)

text \<open>
  C3. In \<open>Less\<close>, a pair with an \<open>x-order\<close> value is less than one without, and not the
  other way round; two pairs without one compare by name. For the three entries \<open>b\<close>
  (no \<open>x-order\<close>), \<open>a\<close> (\<open>x-order\<close> 2) and \<open>c\<close> (\<open>x-order\<close> 1) and no ordered map, the
  result is \<open>c\<close>, \<open>a\<close>, \<open>b\<close>, in whatever order the runtime iterates the map.
\<close>

theorem Less_presence_then_name:
  "(i < length items \<and> j < length items
      \<and> GetString (Extensions (Schema (items ! i))) ''x-order'' \<noteq> None
      \<and> GetString (Extensions (Schema (items ! j))) ''x-order'' = None
      \<longrightarrow> Less items i j = Inr True \<and> Less items j i = Inr False)
   \<and> (p < length items' \<and> q < length items'
      \<and> GetString (Extensions (Schema (items' ! p))) ''x-order'' = None
      \<and> GetString (Extensions (Schema (items' ! q))) ''x-order'' = None
      \<longrightarrow> Less items' p q = Inr (Name (items' ! p) < Name (items' ! q)))
   \<and> (iteration_order
         (Some [''b'' \<mapsto> sch ''B'' None, ''a'' \<mapsto> sch ''A'' (Some (VInt 2)),
                ''c'' \<mapsto> sch ''C'' (Some (VInt 1))]) ks
      \<longrightarrow> fst (ToOrderedSchemaItems ks
           \<lparr>Origin = Some [''b'' \<mapsto> sch ''B'' None, ''a'' \<mapsto> sch ''A'' (Some (VInt 2)),
                           ''c'' \<mapsto> sch ''C'' (Some (VInt 1))],
            omap = None\<rparr>)
         = Inr [\<lparr>Name = ''c'', Schema = sch ''C'' (Some (VInt 1))\<rparr>,
                \<lparr>Name = ''a'', Schema = sch ''A'' (Some (VInt 2))\<rparr>,
                \<lparr>Name = ''b'', Schema = sch ''B'' None\<rparr>])"
proof (intro conjI impI)
  assume "i < length items \<and> j < length items
      \<and> GetString (Extensions (Schema (items ! i))) ''x-order'' \<noteq> None
      \<and> GetString (Extensions (Schema (items ! j))) ''x-order'' = None"
  then show "Less items i j = Inr True" "Less items j i = Inr False"
    by (simp_all add: Less_only_first)
next
  assume "p < length items' \<and> q < length items'
      \<and> GetString (Extensions (Schema (items' ! p))) ''x-order'' = None
      \<and> GetString (Extensions (Schema (items' ! q))) ''x-order'' = None"
  then show "Less items' p q = Inr (Name (items' ! p) < Name (items' ! q))"
    by (simp add: Less_neither)
next
  assume "iteration_order
         (Some [''b'' \<mapsto> sch ''B'' None, ''a'' \<mapsto> sch ''A'' (Some (VInt 2)),
                ''c'' \<mapsto> sch ''C'' (Some (VInt 1))]) ks"
  then have "distinct ks" "set ks = {''b'', ''a'', ''c''}"
    by (auto simp: iteration_order_def)
  then have "ks \<in> {[''b'', ''a'', ''c''], [''b'', ''c'', ''a''], [''a'', ''b'', ''c''],
                 [''a'', ''c'', ''b''], [''c'', ''b'', ''a''], [''c'', ''a'', ''b'']}"
    by (rule three_orders) simp_all
  then show "fst (ToOrderedSchemaItems ks
           \<lparr>Origin = Some [''b'' \<mapsto> sch ''B'' None, ''a'' \<mapsto> sch ''A'' (Some (VInt 2)),
                           ''c'' \<mapsto> sch ''C'' (Some (VInt 1))],
            omap = None\<rparr>)
         = Inr [\<lparr>Name = ''c'', Schema = sch ''C'' (Some (VInt 1))\<rparr>,
                \<lparr>Name = ''a'', Schema = sch ''A'' (Some (VInt 2))\<rparr>,
                \<lparr>Name = ''b'', Schema = sch ''B'' None\<rparr>]"
    by (rule scenario_orders)
qed

theorem Less_presence_then_name_witness:
  "(0 < length [\<lparr>Name = ''z'', Schema = sch ''Z'' (Some (VInt 2))\<rparr>,
               \<lparr>Name = ''b'', Schema = sch ''B'' None\<rparr>]
    \<and> Less [\<lparr>Name = ''z'', Schema = sch ''Z'' (Some (VInt 2))\<rparr>,
             \<lparr>Name = ''b'', Schema = sch ''B'' None\<rparr>] 0 1 = Inr True
    \<and> Less [\<lparr>Name = ''z'', Schema = sch ''Z'' (Some (VInt 2))\<rparr>,
             \<lparr>Name = ''b'', Schema = sch ''B'' None\<rparr>] 1 0 = Inr False)
   \<and> (GetString (Extensions (Schema ([\<lparr>Name = ''b'', Schema = sch ''B'' None\<rparr>,
                                      \<lparr>Name = ''d'', Schema = sch ''D'' None\<rparr>] ! 0))) ''x-order''
        = None
    \<and> Less [\<lparr>Name = ''b'', Schema = sch ''B'' None\<rparr>,
             \<lparr>Name = ''d'', Schema = sch ''D'' None\<rparr>] 0 1 = Inr True)
   \<and> (iteration_order
         (Some [''b'' \<mapsto> sch ''B'' None, ''a'' \<mapsto> sch ''A'' (Some (VInt 2)),
                ''c'' \<mapsto> sch ''C'' (Some (VInt 1))]) [''b'', ''a'', ''c'']
    \<and> fst (ToOrderedSchemaItems [''b'', ''a'', ''c'']
           \<lparr>Origin = Some [''b'' \<mapsto> sch ''B'' None, ''a'' \<mapsto> sch ''A'' (Some (VInt 2)),
                           ''c'' \<mapsto> sch ''C'' (Some (VInt 1))],
            omap = None\<rparr>)
         = Inr [\<lparr>Name = ''c'', Schema = sch ''C'' (Some (VInt 1))\<rparr>,
                \<lparr>Name = ''a'', Schema = sch ''A'' (Some (VInt 2))\<rparr>,
                \<lparr>Name = ''b'', Schema = sch ''B'' None\<rparr>])"
proof -
  have o: "iteration_order
         (Some [''b'' \<mapsto> sch ''B'' None, ''a'' \<mapsto> sch ''A'' (Some (VInt 2)),
                ''c'' \<mapsto> sch ''C'' (Some (VInt 1))]) [''b'', ''a'', ''c'']"
    by (auto simp: iteration_order_def)
  show ?thesis
    using o Less_presence_then_name
      [of 0 "[\<lparr>Name = ''z'', Schema = sch ''Z'' (Some (VInt 2))\<rparr>,
              \<lparr>Name = ''b'', Schema = sch ''B'' None\<rparr>]" 1
          0 "[\<lparr>Name = ''b'', Schema = sch ''B'' None\<rparr>,
              \<lparr>Name = ''d'', Schema = sch ''D'' None\<rparr>]" 1
          "[''b'', ''a'', ''c'']"]
    by (simp add: GetString_sch)
qed

text \<open>
  C2. With both \<open>x-order\<close> values present \<open>Less\<close> compares two integers as integers and
  every other pair through \<open>reflect.Value.String\<close>, which does not fail: the comparison of
  the names is never reached (\<open>Less_both_present\<close>). An integer 10 against the string
  \<open>5\<close> compares the text \<open><int Value>\<close> with \<open>5\<close>, not \<open>10\<close> with \<open>5\<close>, and two boolean
  values compare equal whatever the names.
\<close>

theorem Less_mixed_x_order_values:
  "Less [\<lparr>Name = ''x'', Schema = sch ''X'' (Some (VInt 10))\<rparr>,
         \<lparr>Name = ''y'', Schema = sch ''Y'' (Some (VString ''5''))\<rparr>] 0 1 = Inr False
   \<and> Less [\<lparr>Name = ''x'', Schema = sch ''X'' (Some (VInt 10))\<rparr>,
           \<lparr>Name = ''y'', Schema = sch ''Y'' (Some (VString ''5''))\<rparr>] 1 0 = Inr True
   \<and> (''10'' :: string) < ''5''
   \<and> Less [\<lparr>Name = ''a'', Schema = sch ''A'' (Some (VOther ''bool''))\<rparr>,
           \<lparr>Name = ''b'', Schema = sch ''B'' (Some (VOther ''bool''))\<rparr>] 0 1 = Inr False
   \<and> (''a'' :: string) < ''b''"
  by (simp add: Less_def GetString_sch less_Int_def less_String_def reflect_Int_def
      reflect_String_def)

subsection \<open>Serialization\<close>

lemma MarshalJSON_loop_prefix:
  "MarshalJSON_loop enc i items buf = Inr b \<Longrightarrow> \<exists>t. b = buf @ t"
proof (induction items arbitrary: i buf)
  case Nil
  then show ?case by simp
next
  case (Cons item rest)
  then show ?case
    by (fastforce simp: Let_def split: sum.splits if_splits)
qed

lemma OrderSchemaItems_MarshalJSON_brace:
  assumes "OrderSchemaItems_MarshalJSON enc items = Inr b"
  shows "\<exists>t. b = CHR ''{'' # t"
proof -
  from assms obtain buf where "MarshalJSON_loop enc 0 items ''{'' = Inr buf" "b = buf @ ''}''"
    by (auto simp: OrderSchemaItems_MarshalJSON_def split: sum.splits)
  then show ?thesis using MarshalJSON_loop_prefix by fastforce
qed

lemma OrderSchemaItems_MarshalJSON_Nil: "OrderSchemaItems_MarshalJSON enc [] = Inr ''{}''"
  by (simp add: OrderSchemaItems_MarshalJSON_def)

lemma sort_Sort_Nil: "sort_Sort [] = Inr []"
  by (simp add: sort_Sort_def insertionSort_def OrderSchemaItems_Len_def insertionSort_outer_stop)

text \<open>
  C4. An initialized container with no entry in \<open>Origin\<close> does not always serialize as
  \<open>{}\<close>: \<open>ToOrderedSchemaItems\<close> renders the keys of the ordered map. After
  \<open>NewSchemaProperties()\<close>, \<open>Set("a", ...)\<close> and \<open>delete(p.Origin, "a")\<close> on the exported
  map, \<open>Len\<close> is 0 and the text has the member \<open>a\<close> with the zero schema.
\<close>

theorem MarshalJSON_empty_Origin_with_ordered_names:
  \<open>Origin ((built [(''a'', sch ''1'' None)])\<lparr>Origin := Some Map.empty\<rparr>) = Some Map.empty
   \<and> fst (SchemaProperties_Len ((built [(''a'', sch ''1'' None)])\<lparr>Origin := Some Map.empty\<rparr>)) = 0
   \<and> fst (SchemaProperties_MarshalJSON (\<lambda>s. Inr ''{}'') Inr []
            ((built [(''a'', sch ''1'' None)])\<lparr>Origin := Some Map.empty\<rparr>))
       = Inr ''{"a":{}}''
   \<and> fst (SchemaProperties_MarshalJSON (\<lambda>s. Inr ''{}'') Inr []
            ((built [(''a'', sch ''1'' None)])\<lparr>Origin := Some Map.empty\<rparr>))
       \<noteq> Inr ''{}''\<close>
proof -
  define c where "c = (built [(''a'', sch ''1'' None)])\<lparr>Origin := Some Map.empty\<rparr>"
  obtain om where om: "omap (built [(''a'', sch ''1'' None)]) = Some om" "keys om = [''a'']"
    using keys_built [of "[(''a'', sch ''1'' None)]"] by auto
  have o: "omap c = Some om" "Origin c = Some Map.empty"
    using om(1) by (simp_all add: c_def)
  have len: "fst (SchemaProperties_Len c) = 0"
    by (simp add: SchemaProperties_Len_def o)
  have "fst (ToOrderedSchemaItems [] c) = Inr [\<lparr>Name = ''a'', Schema = zero_Schema\<rparr>]"
    using ToOrdered_present [OF o(1), of "[]"] by (simp add: om(2) o(2) map_index_def)
  then have m: \<open>fst (SchemaProperties_MarshalJSON (\<lambda>s. Inr ''{}'') Inr [] c) = Inr ''{"a":{}}''\<close>
    by (auto simp: SchemaProperties_MarshalJSON_def o json_Marshal_def
        OrderSchemaItems_MarshalJSON_def split: prod.splits sum.splits)
  show ?thesis using o(2) len m unfolding c_def by simp
qed

text \<open>
  C4, as amended. \<open>SchemaProperties.MarshalJSON\<close> returns the text \<open>null\<close> exactly when
  \<open>Origin\<close> is nil, and \<open>{}\<close> for a container with \<open>Origin\<close> present and empty whose
  ordered map is absent or has no key. The two facts used of the library's \<open>compact\<close>
  are that it leaves \<open>{}\<close> as it is and never turns a text that starts with a brace
  into \<open>null\<close>.
\<close>

theorem MarshalJSON_null_iff_nil:
  assumes "\<And>b out. compact (CHR ''{'' # b) = Inr out \<Longrightarrow> out \<noteq> ''null''"
    and "compact ''{}'' = Inr ''{}''"
  shows "((fst (SchemaProperties_MarshalJSON enc compact ks s) = Inr ''null'') = (Origin s = None))
     \<and> (Origin s = Some Map.empty \<and> (case omap s of None \<Rightarrow> True | Some om \<Rightarrow> keys om = [])
          \<longrightarrow> fst (SchemaProperties_MarshalJSON enc compact ks s) = Inr ''{}'')"
proof (intro conjI impI)
  show "(fst (SchemaProperties_MarshalJSON enc compact ks s) = Inr ''null'') = (Origin s = None)"
  proof (cases "Origin s = None")
    case True
    then show ?thesis by (simp add: SchemaProperties_MarshalJSON_def)
  next
    case False
    have "fst (SchemaProperties_MarshalJSON enc compact ks s) \<noteq> Inr ''null''"
    proof
      assume a: "fst (SchemaProperties_MarshalJSON enc compact ks s) = Inr ''null''"
      then obtain items where "json_Marshal enc compact items = Inr ''null''"
        using False
        by (auto simp: SchemaProperties_MarshalJSON_def split: prod.splits sum.splits)
      then obtain b where b: "OrderSchemaItems_MarshalJSON enc items = Inr b"
        "compact b = Inr ''null''"
        by (auto simp: json_Marshal_def split: sum.splits)
      from b(1) obtain t where "b = CHR ''{'' # t"
        using OrderSchemaItems_MarshalJSON_brace by blast
      with b(2) assms(1) show False by blast
    qed
    with False show ?thesis by simp
  qed
next
  assume a: "Origin s = Some Map.empty \<and> (case omap s of None \<Rightarrow> True | Some om \<Rightarrow> keys om = [])"
  then have "fst (ToOrderedSchemaItems ks s) = Inr []"
    by (auto simp: ToOrderedSchemaItems_def orderedmap_Keys_def range_Origin_def
        List.map_filter_def sort_Sort_Nil split: option.splits)
  then show "fst (SchemaProperties_MarshalJSON enc compact ks s) = Inr ''{}''"
    using a assms(2)
    by (auto simp: SchemaProperties_MarshalJSON_def json_Marshal_def
        OrderSchemaItems_MarshalJSON_Nil split: prod.splits sum.splits)
qed

theorem MarshalJSON_null_iff_nil_witness:
  "Inr ''{}'' = (Inr ''{}'' :: error + string)
   \<and> Origin NewSchemaProperties = Some Map.empty
   \<and> fst (SchemaProperties_MarshalJSON enc_Props Inr [] NewSchemaProperties) = Inr ''{}''
   \<and> fst (SchemaProperties_MarshalJSON enc_Props Inr [] \<lparr>Origin = None, omap = None\<rparr>)
       = Inr ''null''"
proof -
  have 1: "\<And>b out. (Inr (CHR ''{'' # b) :: error + string) = Inr out \<Longrightarrow> out \<noteq> ''null''"
    by auto
  have 2: "(Inr ''{}'' :: error + string) = Inr ''{}''" by simp
  show ?thesis
    using MarshalJSON_null_iff_nil [of Inr enc_Props "[]" NewSchemaProperties, OF 1 2]
      MarshalJSON_null_iff_nil [of Inr enc_Props "[]" "\<lparr>Origin = None, omap = None\<rparr>", OF 1 2]
    by (simp add: NewSchemaProperties_def orderedmap_New_def)
qed

lemma MarshalJSON_loop_error:
  assumes "item \<in> set items" "isl (enc (Schema item))"
  shows "\<exists>it e. it \<in> set items \<and> enc (Schema it) = Inl e
           \<and> MarshalJSON_loop enc i items buf = Inl e"
  using assms
proof (induction items arbitrary: i buf)
  case Nil
  then show ?case by simp
next
  case (Cons x rest)
  show ?case
  proof (cases "enc (Schema x)")
    case (Inl e)
    then show ?thesis by (auto simp: Let_def)
  next
    case (Inr bs)
    with Cons.prems have "item \<in> set rest" by auto
    from Cons.IH [OF this Cons.prems(2)] Inr show ?thesis
      by (fastforce simp: Let_def)
  qed
qed

text \<open>
  C7. When the encoder fails on the sub-schema of one of the pairs that are rendered,
  \<open>SchemaProperties.MarshalJSON\<close> returns an error, the encoder's error on one of the
  pairs wrapped by \<open>json.Marshal\<close>, and no text: the result is \<open>Inl\<close>, Go's
  \<open>(nil, err)\<close>, and the buffer written so far is dropped.
\<close>

theorem MarshalJSON_encoder_error_aborts:
  assumes "Origin s \<noteq> None"
    and "fst (ToOrderedSchemaItems ks s) = Inr items"
    and "item \<in> set items"
    and "isl (enc (Schema item))"
  shows "\<exists>it e. it \<in> set items \<and> enc (Schema it) = Inl e
           \<and> fst (SchemaProperties_MarshalJSON enc compact ks s) = Inl (MarshalerError e)"
proof -
  from MarshalJSON_loop_error [where enc = enc and item = item and i = 0 and buf = "''{''",
      OF assms(3,4)]
  obtain it e where h: "it \<in> set items" "enc (Schema it) = Inl e"
    "MarshalJSON_loop enc 0 items ''{'' = Inl e" by blast
  then have "json_Marshal enc compact items = Inl (MarshalerError e)"
    by (simp add: json_Marshal_def OrderSchemaItems_MarshalJSON_def)
  then have "fst (SchemaProperties_MarshalJSON enc compact ks s) = Inl (MarshalerError e)"
    using assms(1,2)
    by (auto simp: SchemaProperties_MarshalJSON_def split: prod.splits sum.splits)
  with h show ?thesis by blast
qed

theorem MarshalJSON_encoder_error_aborts_witness:
  "Origin (built [(''a'', sch ''1'' None), (''b'', sch [] None)]) \<noteq> None
   \<and> isl (enc_Props (sch [] None))
   \<and> fst (SchemaProperties_MarshalJSON enc_Props Inr []
            (built [(''a'', sch ''1'' None), (''b'', sch [] None)]))
       = Inl (MarshalerError (EncodeError ''unsupported value''))"
proof -
  have 1: "Origin (built [(''a'', sch ''1'' None), (''b'', sch [] None)]) \<noteq> None"
    by (simp add: Origin_built)
  have 2: "fst (ToOrderedSchemaItems [] (built [(''a'', sch ''1'' None), (''b'', sch [] None)]))
     = Inr [\<lparr>Name = ''a'', Schema = sch ''1'' None\<rparr>, \<lparr>Name = ''b'', Schema = sch [] None\<rparr>]"
    by (simp add: ToOrdered_built map_index_def)
  have 3: "\<lparr>Name = ''b'', Schema = sch [] None\<rparr>
     \<in> set [\<lparr>Name = ''a'', Schema = sch ''1'' None\<rparr>, \<lparr>Name = ''b'', Schema = sch [] None\<rparr>]"
    by simp
  have 4: "isl (enc_Props (Schema \<lparr>Name = ''b'', Schema = sch [] None\<rparr>))"
    by (simp add: enc_Props_def sch_def)
  from MarshalJSON_encoder_error_aborts [where enc = enc_Props and compact = Inr and ks = "[]"
      and item = "\<lparr>Name = ''b'', Schema = sch [] None\<rparr>", OF 1 2 3 4]
  show ?thesis using 1 4 by (auto simp: enc_Props_def sch_def)
qed

text \<open>
  C9. \<open>Set\<close> does not succeed on every container: on a nil \<open>Origin\<close> the assignment
  panics, and with \<open>Origin\<close> present and no ordered map the call of \<open>omap.Set\<close> panics.
\<close>

theorem Set_panics_without_maps:
  "fst (SchemaProperties_Set ''a'' zero_Schema \<lparr>Origin = None, omap = None\<rparr>)
     = Some (Panic ''assignment to entry in nil map'')
   \<and> fst (SchemaProperties_Set ''a'' zero_Schema \<lparr>Origin = Some Map.empty, omap = None\<rparr>)
     = Some (Panic ''nil pointer dereference'')"
  by (simp add: SchemaProperties_Set_def)

text \<open>
  C9, as amended. \<open>Set\<close> returns without a panic on every container whose \<open>Origin\<close> and
  ordered map are both present, so on every container built by the constructor, for
  every name, the empty one too, and every schema.
\<close>

theorem Set_succeeds_with_both_maps:
  "(Origin s \<noteq> None \<and> omap s \<noteq> None \<longrightarrow> fst (SchemaProperties_Set k v s) = None)
   \<and> fst (SchemaProperties_Set k v (built kvs)) = None"
proof (intro conjI impI)
  assume "Origin s \<noteq> None \<and> omap s \<noteq> None"
  then show "fst (SchemaProperties_Set k v s) = None"
    by (auto simp: SchemaProperties_Set_def Let_def)
next
  show "fst (SchemaProperties_Set k v (built kvs)) = None"
    by (rule consistent_Set(2) [OF consistent_built])
qed

theorem Set_succeeds_with_both_maps_witness:
  "Origin NewSchemaProperties \<noteq> None \<and> omap NewSchemaProperties \<noteq> None
   \<and> fst (SchemaProperties_Set [] zero_Schema NewSchemaProperties) = None"
  using Set_succeeds_with_both_maps [of NewSchemaProperties "[]" zero_Schema "[]"]
  by (simp add: NewSchemaProperties_def)

text \<open>
  C10. \<open>Len\<close>, \<open>ToOrderedSchemaItems\<close> and \<open>MarshalJSON\<close> return the container as they
  received it, whether they return a result or an error: they only read \<open>Origin\<close> and
  the keys of the ordered map, and what \<open>sort.Sort\<close> swaps is the slice of pairs made for
  the call.
\<close>

theorem reads_leave_container_unchanged:
  "snd (SchemaProperties_Len s) = s
   \<and> snd (ToOrderedSchemaItems ks s) = s
   \<and> snd (SchemaProperties_MarshalJSON enc compact ks s) = s"
proof -
  have 1: "snd (SchemaProperties_Len s) = s"
    by (simp add: SchemaProperties_Len_def split: option.splits)
  have 2: "snd (ToOrderedSchemaItems ks s) = s"
    by (simp add: ToOrderedSchemaItems_def split: option.splits)
  have 3: "snd (SchemaProperties_MarshalJSON enc compact ks s) = s"
    using 2 by (auto simp: SchemaProperties_MarshalJSON_def split: prod.splits sum.splits)
  show ?thesis using 1 2 3 by simp
qed

subsection \<open>The fallback sort and the order of iteration\<close>

lemma Less_less_item:
  "i < length items \<Longrightarrow> j < length items \<Longrightarrow>
   Less items i j = Inr (less_item (items ! i) (items ! j))"
  by (auto simp: Less_def less_item_def less_String_def split: option.splits sum.splits)

lemma length_insr [simp]: "length (insr x ys) = Suc (length ys)"
  by (induction ys) simp_all

lemma insertionSort_inner_insr:
  "j < length data \<Longrightarrow>
   insertionSort_inner data 0 j = Inr (rev (insr (data ! j) (rev (take j data))) @ drop (Suc j) data)"
proof (induction j arbitrary: data)
  case 0
  then show ?case by (cases data) simp_all
next
  case (Suc j)
  define pre where "pre = take j data"
  define y where "y = data ! j"
  define x where "x = data ! Suc j"
  define post where "post = drop (Suc (Suc j)) data"
  have d: "data = pre @ y # x # post"
    using Suc.prems by (simp add: pre_def y_def x_def post_def Cons_nth_drop_Suc Suc_lessD id_take_nth_drop [symmetric] flip: append_assoc)
  have lp: "length pre = j" using Suc.prems by (simp add: pre_def)
  have L: "Less data (Suc j) j = Inr (less_item x y)"
    using Suc.prems by (simp add: Less_less_item x_def y_def)
  show ?case
  proof (cases "less_item x y")
    case True
    have sw: "Swap data (Suc j) j = Inr (pre @ x # y # post)"
      using Suc.prems lp by (simp add: Swap_def d nth_append list_update_append)
    have "insertionSort_inner (pre @ x # y # post) 0 j
        = Inr (rev (insr ((pre @ x # y # post) ! j) (rev (take j (pre @ x # y # post))))
               @ drop (Suc j) (pre @ x # y # post))"
      by (rule Suc.IH) (simp add: lp)
    then have "insertionSort_inner (pre @ x # y # post) 0 j = Inr (rev (insr x (rev pre)) @ y # post)"
      by (simp add: lp nth_append)
    moreover have "rev (insr (data ! Suc j) (rev (take (Suc j) data))) @ drop (Suc (Suc j)) data
        = rev (insr x (rev pre)) @ y # post"
      using True lp by (simp add: d nth_append)
    ultimately show ?thesis using True L sw by simp
  next
    case False
    have "rev (insr (data ! Suc j) (rev (take (Suc j) data))) @ drop (Suc (Suc j)) data = data"
      using False lp by (simp add: d nth_append)
    then show ?thesis using False L by simp
  qed
qed

lemma insertionSort_outer_isr:
  "0 < i \<Longrightarrow> i \<le> length data \<Longrightarrow>
   insertionSort_outer data 0 i (length data) = Inr (rev (isr (rev (take i data)) (drop i data)))"
proof (induction "length data - i" arbitrary: i data)
  case 0
  then show ?case by (simp add: insertionSort_outer_stop)
next
  case (Suc n)
  then have i: "i < length data" by simp
  define data' where
    "data' = rev (insr (data ! i) (rev (take i data))) @ drop (Suc i) data"
  have len: "length data' = length data" using i by (simp add: data'_def)
  have inner: "insertionSort_inner data 0 i = Inr data'"
    using i by (simp add: insertionSort_inner_insr data'_def)
  have tk: "take (Suc i) data' = rev (insr (data ! i) (rev (take i data)))"
    using i by (simp add: data'_def)
  have dr: "drop (Suc i) data' = drop (Suc i) data"
    using i by (simp add: data'_def)
  have "insertionSort_outer data' 0 (Suc i) (length data')
      = Inr (rev (isr (rev (take (Suc i) data')) (drop (Suc i) data')))"
    by (rule Suc.hyps(1)) (use Suc.hyps(2) i len in simp_all)
  then have "insertionSort_outer data' 0 (Suc i) (length data)
      = Inr (rev (isr (insr (data ! i) (rev (take i data))) (drop (Suc i) data)))"
    by (simp add: len tk dr)
  moreover have "drop i data = data ! i # drop (Suc i) data"
    using i by (simp add: Cons_nth_drop_Suc)
  ultimately show ?case
    using i inner by (simp add: insertionSort_outer_step)
qed

lemma sort_Sort_isr: "sort_Sort data = Inr (rev (isr [] data))"
proof (cases data)
  case Nil
  then show ?thesis
    by (simp add: sort_Sort_def insertionSort_def OrderSchemaItems_Len_def insertionSort_outer_stop)
next
  case (Cons x xs)
  have "insertionSort_outer data 0 1 (length data) = Inr (rev (isr (rev (take 1 data)) (drop 1 data)))"
    by (rule insertionSort_outer_isr) (simp_all add: Cons)
  then show ?thesis
    by (simp add: sort_Sort_def insertionSort_def OrderSchemaItems_Len_def Cons)
qed

lemma set_insr [simp]: "set (insr x ys) = insert x (set ys)"
  by (induction ys) auto

lemma set_isr [simp]: "set (isr acc xs) = set acc \<union> set xs"
  by (induction xs arbitrary: acc) auto









lemma range_Origin_map:
  assumes "iteration_order (Some m) ks"
  shows "range_Origin (Some m) ks = map (\<lambda>k. \<lparr>Name = k, Schema = map_index (Some m) k\<rparr>) ks"
proof -
  have "\<forall>k \<in> set ks. m k \<noteq> None"
    using assms by (auto simp: iteration_order_def)
  then have "List.map_filter
      (\<lambda>k. case m k of None \<Rightarrow> None | Some v \<Rightarrow> Some \<lparr>Name = k, Schema = v\<rparr>) ks
    = map (\<lambda>k. \<lparr>Name = k, Schema = map_index (Some m) k\<rparr>) ks"
    by (induction ks) (auto simp: List.map_filter_simps map_index_def split: option.splits)
  then show ?thesis by (simp add: range_Origin_def)
qed



lemma Props_sch: "Props (sch p xo) = p"
  by (simp add: sch_def)



subsection \<open>The round trip\<close>

lemma decode_string_plain:
  "plain_name n \<Longrightarrow> decode_string acc (n @ dquote # r) = Some (acc @ n, r)"
proof (induction n arbitrary: acc)
  case Nil
  then show ?case by (cases r) simp_all
next
  case (Cons c n)
  then have c: "c \<noteq> dquote" "c \<noteq> backslash" "\<not> (of_char c :: nat) < 0x20" and n: "plain_name n"
    by (auto simp: plain_name_def)
  obtain d ds where d: "n @ dquote # r = d # ds" by (cases "n @ dquote # r") auto
  have "decode_string acc ((c # n) @ dquote # r) = decode_string (acc @ [c]) (n @ dquote # r)"
    using c by (simp add: d)
  then show ?case using Cons.IH [OF n, of "acc @ [c]"] by simp
qed

lemma put_item_apply: "put_item it m k = (if k = Name it then Some (Schema it) else m k)"
  by (simp add: put_item_def)

lemma fold_put_item_Cons: "fold put_item (it # rest) acc = fold put_item rest (put_item it acc)"
  by simp

lemma members_Cons:
  "render_members enc (it # rest) =
     render_member enc it @ (if rest = [] then [] else CHR '','' # render_members enc rest)"
  by (cases rest) simp_all

lemma MarshalJSON_loop_members:
  assumes "\<forall>it \<in> set items. \<exists>t. enc (Schema it) = Inr t"
  shows "MarshalJSON_loop enc i items buf =
     Inr (buf @ (if items = [] then [] else (if i > 0 then '','' else []) @ render_members enc items))"
  using assms
proof (induction items arbitrary: i buf)
  case Nil
  then show ?case by simp
next
  case (Cons it rest)
  from Cons.prems obtain t where t: "enc (Schema it) = Inr t" by auto
  have IH: "MarshalJSON_loop enc (Suc i) rest buf' =
     Inr (buf' @ (if rest = [] then [] else '','' @ render_members enc rest))" for buf'
    using Cons.IH [of "Suc i" buf'] Cons.prems by simp
  show ?case
    using t by (simp add: Let_def render_member_def IH members_Cons del: render_members.simps)
qed

lemma OrderSchemaItems_MarshalJSON_members:
  assumes "\<forall>it \<in> set items. \<exists>t. enc (Schema it) = Inr t"
  shows "OrderSchemaItems_MarshalJSON enc items = Inr (CHR ''{'' # render_members enc items @ ''}'')"
  using MarshalJSON_loop_members [OF assms, of 0 "''{''"]
  by (simp add: OrderSchemaItems_MarshalJSON_def)

lemma decode_members_members:
  assumes "items \<noteq> []" "length items \<le> n"
    and "\<forall>it \<in> set items. plain_name (Name it)"
    and "\<forall>it \<in> set items. \<exists>t. enc (Schema it) = Inr t
           \<and> (\<forall>r. dec (t @ CHR '','' # r) = Some (Schema it, CHR '','' # r)
                  \<and> dec (t @ CHR ''}'' # r) = Some (Schema it, CHR ''}'' # r))"
  shows "decode_members dec n acc (render_members enc items @ ''}'')
       = Some (fold put_item items acc)"
  using assms
proof (induction items arbitrary: n acc)
  case Nil
  then show ?case by simp
next
  case (Cons it rest)
  from Cons.prems(2) obtain n' where n: "n = Suc n'" "length rest \<le> n'"
    by (cases n) auto
  from Cons.prems(4) obtain t where t: "enc (Schema it) = Inr t"
    "\<And>r. dec (t @ CHR '','' # r) = Some (Schema it, CHR '','' # r)"
    "\<And>r. dec (t @ CHR ''}'' # r) = Some (Schema it, CHR ''}'' # r)"
    by auto
  have p: "plain_name (Name it)" using Cons.prems(3) by simp
  have ds: "decode_string [] (Name it @ dquote # r) = Some (Name it, r)" for r
    using decode_string_plain [OF p, of "[]" r] by simp
  show ?case
  proof (cases rest)
    case Nil
    have "render_members enc (it # rest) @ ''}'' = dquote # Name it @ dquote # CHR '':'' # t @ ''}''"
      using t(1) Nil by (simp add: render_member_def)
    then have "decode_members dec n acc (render_members enc (it # rest) @ ''}'')
        = Some (acc(Name it \<mapsto> Schema it))"
      using ds t(3) [of "[]"] by (simp add: n)
    also have "acc(Name it \<mapsto> Schema it) = fold put_item (it # rest) acc"
      unfolding Nil fold_put_item_Cons by (simp add: put_item_def)
    finally show ?thesis .
  next
    case (Cons it' rest')
    have "render_members enc (it # rest) @ ''}''
        = dquote # Name it @ dquote # CHR '':'' # t @ CHR '','' # render_members enc rest @ ''}''"
      using t(1) Cons by (simp add: render_member_def)
    then have "decode_members dec n acc (render_members enc (it # rest) @ ''}'')
        = decode_members dec n' (acc(Name it \<mapsto> Schema it)) (render_members enc rest @ ''}'')"
      using ds t(2) by (simp add: n)
    also have "acc(Name it \<mapsto> Schema it) = put_item it acc"
      by (simp add: put_item_def)
    also have "decode_members dec n' (put_item it acc) (render_members enc rest @ ''}'')
        = Some (fold put_item rest (put_item it acc))"
      using Cons.IH [of n' "put_item it acc"] Cons.prems(3,4) n(2) Cons by simp
    finally show ?thesis by (simp only: fold_put_item_Cons)
  qed
qed

lemma fold_upd_notin:
  "k \<notin> Name ` set items \<Longrightarrow> fold put_item items acc k = acc k"
  by (induction items arbitrary: acc) (auto simp: put_item_apply)

lemma fold_upd_in:
  assumes "\<forall>it \<in> set items. m (Name it) = Some (Schema it)" "k \<in> Name ` set items"
  shows "fold put_item items acc k = m k"
  using assms
proof (induction items arbitrary: acc)
  case Nil
  then show ?case by simp
next
  case (Cons it rest)
  show ?case
  proof (cases "k \<in> Name ` set rest")
    case True
    then show ?thesis using Cons by simp
  next
    case False
    then have k: "k = Name it" using Cons.prems(2) by auto
    have "fold put_item (it # rest) acc k = fold put_item rest (put_item it acc) k"
      by (simp only: fold_put_item_Cons)
    also have "\<dots> = put_item it acc k"
      by (rule fold_upd_notin) (rule False)
    also have "\<dots> = m k"
      using Cons.prems(1) by (simp add: put_item_apply k)
    finally show ?thesis .
  qed
qed

lemma fold_upd_map:
  assumes "\<forall>it \<in> set items. m (Name it) = Some (Schema it)" "Name ` set items = dom m"
  shows "fold put_item items Map.empty = m"
proof
  fix k
  show "fold put_item items Map.empty k = m k"
  proof (cases "k \<in> dom m")
    case True
    then show ?thesis using fold_upd_in [OF assms(1)] assms(2) by simp
  next
    case False
    then show ?thesis using fold_upd_notin [of k items Map.empty] assms(2) by (auto simp: domIff)
  qed
qed

lemma decode_object_rendering:
  assumes "\<forall>it \<in> set items. m (Name it) = Some (Schema it)" "Name ` set items = dom m"
    and "\<forall>it \<in> set items. plain_name (Name it)"
    and "\<forall>it \<in> set items. \<exists>t. enc (Schema it) = Inr t
           \<and> (\<forall>r. dec (t @ CHR '','' # r) = Some (Schema it, CHR '','' # r)
                  \<and> dec (t @ CHR ''}'' # r) = Some (Schema it, CHR ''}'' # r))"
  shows "\<exists>raw. OrderSchemaItems_MarshalJSON enc items = Inr raw \<and> decode_object dec raw = Some m"
proof -
  have e: "\<forall>it \<in> set items. \<exists>t. enc (Schema it) = Inr t" using assms(4) by blast
  have raw: "OrderSchemaItems_MarshalJSON enc items = Inr (CHR ''{'' # render_members enc items @ ''}'')"
    by (rule OrderSchemaItems_MarshalJSON_members [OF e])
  have "decode_object dec (CHR ''{'' # render_members enc items @ ''}'') = Some m"
  proof (cases "items = []")
    case True
    then have "dom m = {}" using assms(2) by simp
    then have "m = Map.empty" by simp
    then show ?thesis using True by (simp add: decode_object_def)
  next
    case False
    then obtain it rest where ir: "items = it # rest" by (cases items) auto
    have ne: "render_members enc items @ ''}'' \<noteq> ''}''"
      by (cases rest) (simp_all add: ir render_member_def)
    have "length xs \<le> length (render_members enc xs)" for xs
      by (induction enc xs rule: render_members.induct) (simp_all add: render_member_def)
    then have "length items \<le> length (render_members enc items)" .
    then have len: "length items \<le> length (render_members enc items @ ''}'')"
      by simp
    have "decode_members dec (length (render_members enc items @ ''}'')) Map.empty
            (render_members enc items @ ''}'')
        = Some (fold put_item items Map.empty)"
      by (rule decode_members_members [OF False len assms(3,4)])
    then show ?thesis
      using ne fold_upd_map [OF assms(1,2)] by (simp add: decode_object_def)
  qed
  with raw show ?thesis by simp
qed

lemma ToOrdered_entries:
  assumes "Origin s = Some m"
    and "consistent s \<or> (omap s = None \<and> iteration_order (Some m) ks)"
  shows "\<exists>items. fst (ToOrderedSchemaItems ks s) = Inr items
           \<and> (\<forall>it \<in> set items. m (Name it) = Some (Schema it))
           \<and> Name ` set items = dom m"
proof (cases "omap s")
  case (Some om)
  then have c: "set (keys om) = dom m"
    using assms by (auto simp: consistent_def)
  have "fst (ToOrderedSchemaItems ks s)
      = Inr (map (\<lambda>key. \<lparr>Name = key, Schema = map_index (Some m) key\<rparr>) (keys om))"
    using ToOrdered_present [OF Some, of ks] assms(1) by simp
  moreover have "\<forall>it \<in> set (map (\<lambda>key. \<lparr>Name = key, Schema = map_index (Some m) key\<rparr>) (keys om)).
      m (Name it) = Some (Schema it)"
    using c by (auto simp: map_index_def)
  moreover have "Name ` set (map (\<lambda>key. \<lparr>Name = key, Schema = map_index (Some m) key\<rparr>) (keys om))
      = dom m"
    using c by (simp add: image_image)
  ultimately show ?thesis by blast
next
  case None
  then have io: "iteration_order (Some m) ks"
    using assms(2) by (auto simp: consistent_def assms(1))
  then have ks: "set ks = dom m" by (simp add: iteration_order_def)
  define xs where "xs = map (\<lambda>key. \<lparr>Name = key, Schema = map_index (Some m) key\<rparr>) ks"
  have "fst (ToOrderedSchemaItems ks s) = Inr (rev (isr [] xs))"
    using None assms(1) io
    by (simp add: ToOrderedSchemaItems_def range_Origin_map sort_Sort_isr xs_def)
  moreover have "\<forall>it \<in> set (rev (isr [] xs)). m (Name it) = Some (Schema it)"
    using ks by (auto simp: xs_def map_index_def)
  moreover have "Name ` set (rev (isr [] xs)) = dom m"
    using ks by (simp add: xs_def image_image)
  ultimately show ?thesis by blast
qed

text \<open>
  The decoder reads back what \<open>MarshalJSON\<close> writes where no name needs escaping: for
  a container with \<open>Origin\<close> present whose two forms hold the same names (as every built
  one does), or that has no ordered map, whose names are plain, whose sub-schemas encode
  and decode back in front of a comma or a closing brace, and whose rendering \<open>compact\<close>
  returns as it is, \<open>MarshalJSON\<close> returns a text, and decoding it gives \<open>Origin\<close>.
\<close>

theorem MarshalJSON_round_trip:
  assumes "Origin s = Some m"
    and "consistent s \<or> (omap s = None \<and> iteration_order (Some m) ks)"
    and "\<forall>k \<in> dom m. plain_name k"
    and "\<forall>v \<in> ran m. \<exists>t. enc v = Inr t
           \<and> (\<forall>r. dec (t @ CHR '','' # r) = Some (v, CHR '','' # r)
                  \<and> dec (t @ CHR ''}'' # r) = Some (v, CHR ''}'' # r))"
    and "\<forall>items raw. (\<forall>it \<in> set items. plain_name (Name it))
           \<and> OrderSchemaItems_MarshalJSON enc items = Inr raw \<longrightarrow> compact raw = Inr raw"
  shows "\<exists>out. fst (SchemaProperties_MarshalJSON enc compact ks s) = Inr out
           \<and> decode_object dec out = Some m"
proof -
  from ToOrdered_entries [OF assms(1,2)] obtain items where
    it: "fst (ToOrderedSchemaItems ks s) = Inr items"
      "\<forall>it \<in> set items. m (Name it) = Some (Schema it)"
      "Name ` set items = dom m"
    by blast
  have pl: "\<forall>it \<in> set items. plain_name (Name it)"
    using it(3) assms(3) by auto
  have de: "\<forall>it \<in> set items. \<exists>t. enc (Schema it) = Inr t
           \<and> (\<forall>r. dec (t @ CHR '','' # r) = Some (Schema it, CHR '','' # r)
                  \<and> dec (t @ CHR ''}'' # r) = Some (Schema it, CHR ''}'' # r))"
  proof
    fix x assume "x \<in> set items"
    then have "Schema x \<in> ran m" using it(2) by (auto simp: ran_def)
    then show "\<exists>t. enc (Schema x) = Inr t
           \<and> (\<forall>r. dec (t @ CHR '','' # r) = Some (Schema x, CHR '','' # r)
                  \<and> dec (t @ CHR ''}'' # r) = Some (Schema x, CHR ''}'' # r))"
      using assms(4) by blast
  qed
  from decode_object_rendering [OF it(2,3) pl de] obtain raw where
    raw: "OrderSchemaItems_MarshalJSON enc items = Inr raw" "decode_object dec raw = Some m"
    by blast
  have "compact raw = Inr raw" using assms(5) pl raw(1) by blast
  then have "json_Marshal enc compact items = Inr raw"
    using raw(1) by (simp add: json_Marshal_def)
  then have "fst (SchemaProperties_MarshalJSON enc compact ks s) = Inr raw"
    using it(1) assms(1)
    by (auto simp: SchemaProperties_MarshalJSON_def split: prod.splits sum.splits)
  with raw(2) show ?thesis by blast
qed

text \<open>
  C6. \<open>OrderSchemaItems.MarshalJSON\<close> writes a name between quotes as it is, where its
  comment promises a JSON object with keys defined by the names. In the container built
  by \<open>NewSchemaProperties()\<close> and one \<open>Set\<close>, the name of three characters \<open>a\<close>,
  backslash, \<open>n\<close> is rendered as a JSON string that decodes to the two characters \<open>a\<close>,
  line feed: the decoded mapping has another key than \<open>Origin\<close>, and the round trip
  fails.
\<close>

theorem MarshalJSON_name_with_escape:
  \<open>Origin (built [([CHR ''a'', backslash, CHR ''n''], sch ''1'' None)])
     = Some [[CHR ''a'', backslash, CHR ''n''] \<mapsto> sch ''1'' None]
   \<and> fst (SchemaProperties_MarshalJSON enc_Props Inr []
            (built [([CHR ''a'', backslash, CHR ''n''], sch ''1'' None)]))
     = Inr (''{"a'' @ [backslash] @ ''n":1}'')
   \<and> decode_object dec_Props (''{"a'' @ [backslash] @ ''n":1}'')
     = Some [[CHR ''a'', CHR 0x0A] \<mapsto> sch ''1'' None]
   \<and> decode_object dec_Props (''{"a'' @ [backslash] @ ''n":1}'')
     \<noteq> Origin (built [([CHR ''a'', backslash, CHR ''n''], sch ''1'' None)])\<close>
proof -
  have 1: "Origin (built [([CHR ''a'', backslash, CHR ''n''], sch ''1'' None)])
     = Some [[CHR ''a'', backslash, CHR ''n''] \<mapsto> sch ''1'' None]"
    by (simp add: Origin_built)
  have 2: \<open>fst (SchemaProperties_MarshalJSON enc_Props Inr []
            (built [([CHR ''a'', backslash, CHR ''n''], sch ''1'' None)]))
     = Inr (''{"a'' @ [backslash] @ ''n":1}'')\<close>
    using ToOrdered_built [of "[]" "[([CHR ''a'', backslash, CHR ''n''], sch ''1'' None)]"]
    by (auto simp: SchemaProperties_MarshalJSON_def Origin_built map_index_def json_Marshal_def
        OrderSchemaItems_MarshalJSON_def enc_Props_def Props_sch split: prod.splits sum.splits)
  have 3: \<open>decode_object dec_Props (''{"a'' @ [backslash] @ ''n":1}'')
     = Some [[CHR ''a'', CHR 0x0A] \<mapsto> sch ''1'' None]\<close>
    by (simp add: decode_object_def dec_Props_def unescape_def sch_def)
  have 4: "[[CHR ''a'', CHR 0x0A] \<mapsto> sch ''1'' None] [CHR ''a'', CHR 0x0A]
      \<noteq> [[CHR ''a'', backslash, CHR ''n''] \<mapsto> sch ''1'' None] [CHR ''a'', CHR 0x0A]"
    by simp
  then have "[[CHR ''a'', CHR 0x0A] \<mapsto> sch ''1'' None]
      \<noteq> [[CHR ''a'', backslash, CHR ''n''] \<mapsto> sch ''1'' None]"
    by metis
  then show ?thesis using 1 2 3 by simp
qed

lemma dec_Props_enc:
  assumes "Props v \<noteq> []" "Extensions v = Map.empty"
    and "\<forall>c \<in> set (Props v). c \<noteq> CHR '','' \<and> c \<noteq> CHR ''}''"
  shows "\<exists>t. enc_Props v = Inr t
           \<and> (\<forall>r. dec_Props (t @ CHR '','' # r) = Some (v, CHR '','' # r)
                  \<and> dec_Props (t @ CHR ''}'' # r) = Some (v, CHR ''}'' # r))"
  using assms
  by (simp add: enc_Props_def dec_Props_def takeWhile_append2 [where ys = "c # r" for c r]
      dropWhile_append2 [where ys = "c # r" for c r] takeWhile_eq_Nil_iff)

theorem MarshalJSON_round_trip_witness:
  \<open>Origin (built [(''b'', sch ''2'' None), (''a'', sch ''1'' None)])
     = Some [''b'' \<mapsto> sch ''2'' None, ''a'' \<mapsto> sch ''1'' None]
   \<and> consistent (built [(''b'', sch ''2'' None), (''a'', sch ''1'' None)])
   \<and> plain_name ''a'' \<and> plain_name ''b''
   \<and> fst (SchemaProperties_MarshalJSON enc_Props Inr []
            (built [(''b'', sch ''2'' None), (''a'', sch ''1'' None)]))
       = Inr ''{"b":2,"a":1}''
   \<and> decode_object dec_Props ''{"b":2,"a":1}''
       = Some [''b'' \<mapsto> sch ''2'' None, ''a'' \<mapsto> sch ''1'' None]\<close>
proof -
  define s where "s = built [(''b'', sch ''2'' None), (''a'', sch ''1'' None)]"
  define m where "m = [''b'' \<mapsto> sch ''2'' None, ''a'' \<mapsto> sch ''1'' None]"
  have 1: "Origin s = Some m" by (simp add: s_def m_def Origin_built)
  have 2: "consistent s \<or> (omap s = None \<and> iteration_order (Some m) [])"
    by (simp add: s_def consistent_built)
  have p: "plain_name ''a''" "plain_name ''b''" by (simp_all add: plain_name_def)
  have 3: "\<forall>k \<in> dom m. plain_name k" using p by (simp add: m_def)
  have "ran m \<subseteq> {sch ''1'' None, sch ''2'' None}"
    by (auto simp: m_def ran_def split: if_splits)
  moreover have "\<exists>t. enc_Props v = Inr t
           \<and> (\<forall>r. dec_Props (t @ CHR '','' # r) = Some (v, CHR '','' # r)
                  \<and> dec_Props (t @ CHR ''}'' # r) = Some (v, CHR ''}'' # r))"
    if "v \<in> {sch ''1'' None, sch ''2'' None}" for v
    using that by (intro dec_Props_enc) (auto simp: sch_def)
  ultimately have 4: "\<forall>v \<in> ran m. \<exists>t. enc_Props v = Inr t
           \<and> (\<forall>r. dec_Props (t @ CHR '','' # r) = Some (v, CHR '','' # r)
                  \<and> dec_Props (t @ CHR ''}'' # r) = Some (v, CHR ''}'' # r))"
    by blast
  have 5: "\<forall>items raw. (\<forall>it \<in> set items. plain_name (Name it))
           \<and> OrderSchemaItems_MarshalJSON enc_Props items = Inr raw
           \<longrightarrow> (Inr raw :: error + string) = Inr raw"
    by simp
  from MarshalJSON_round_trip [where compact = Inr and enc = enc_Props and dec = dec_Props,
      OF 1 2 3 4 5]
  obtain out where t: "fst (SchemaProperties_MarshalJSON enc_Props Inr [] s) = Inr out"
    "decode_object dec_Props out = Some m" by blast
  have \<open>fst (SchemaProperties_MarshalJSON enc_Props Inr [] s) = Inr ''{"b":2,"a":1}''\<close>
    using ToOrdered_built [of "[]" "[(''b'', sch ''2'' None), (''a'', sch ''1'' None)]"]
    by (auto simp: s_def SchemaProperties_MarshalJSON_def Origin_built map_index_def
        json_Marshal_def OrderSchemaItems_MarshalJSON_def enc_Props_def Props_sch
        split: prod.splits sum.splits)
  with t have \<open>out = ''{"b":2,"a":1}''\<close> by simp
  with t 1 p consistent_built [of "[(''b'', sch ''2'' None), (''a'', sch ''1'' None)]"]
  show ?thesis by (simp add: s_def m_def)
qed

end
